theory Spec2Isabelle
  imports Main "HOL-Library.Word" "HOL-Library.Log_Nat"
begin

section \<open>KSC field mill converter: the binary decoder and the one-minute averager\<close>

text \<open>
  The development embeds \<^verbatim>\<open>translate_KSC\<close> of \<^verbatim>\<open>KSC_BinaryConverter.py\<close>
  (lines 149 to 197): the loop that reads 7184-byte records from a file, unpacks the
  time stamp and 34 mill sub-records of 112 bytes, accumulates one mean per valid mill
  and writes one averaged row every 60 records.
\<close>

subsection \<open>Values of the Python run time\<close>

type_synonym byte = "8 word"

text \<open>The exceptions the loop body can raise.\<close>

datatype error = StructError | IndexError | ZeroDivisionError

text \<open>
  \<^verbatim>\<open>struct.unpack\<close> is called without a byte-order prefix, so the 16-bit fields are
  read in the byte order of the machine that runs the script (\<^verbatim>\<open>sys.byteorder\<close>).
\<close>

datatype byteorder = Little | Big

subsubsection \<open>Floating point\<close>

text \<open>
  A Python float is an IEEE 754 binary64 number. The finite ones are modelled by their
  exact rational value, and every arithmetic operation rounds its exact result to the
  nearest number with a 53-bit significand, ties to even, with the exponent bounded
  below as for subnormal numbers. Overflow to infinity and the sign of zero are left
  out: every magnitude that arises here is a sum of at most 2040 means of 16-bit
  samples or a quotient of such a sum by a count between 1 and 2040.
\<close>

datatype pyfloat = Finite rat | NaN

definition round_half_even :: "rat \<Rightarrow> int" where
  "round_half_even q =
     (let n = \<lfloor>q\<rfloor>; r = q - of_int n
      in if r < 1 / 2 then n else if 1 / 2 < r then n + 1 else if even n then n else n + 1)"

definition floor_log2 :: "rat \<Rightarrow> int" where
  \<comment> \<open>\<open>\<lfloor>log\<^sub>2 x\<rfloor>\<close> of a positive rational, from the bit lengths of numerator and denominator\<close>
  "floor_log2 x =
     (let (p, q) = quotient_of x;
          d = int (floorlog 2 (nat p)) - int (floorlog 2 (nat q))
      in if 2 powi d \<le> x then d else d - 1)"

definition round_double :: "rat \<Rightarrow> rat" where
  "round_double x =
     (if x = 0 then 0
      else let e = max (floor_log2 \<bar>x\<bar>) (- 1022) - 52; u = 2 powi e
           in of_int (round_half_even (x / u)) * u)"

definition float_of :: "int \<Rightarrow> pyfloat" where
  \<comment> \<open>\<^verbatim>\<open>float(n)\<close>, and the conversion of an int operand of a float operation\<close>
  "float_of n = Finite (round_double (of_int n))"

fun fadd :: "pyfloat \<Rightarrow> pyfloat \<Rightarrow> pyfloat" where
  "fadd (Finite a) (Finite b) = Finite (round_double (a + b))"
| "fadd _ _ = NaN"

fun truediv :: "pyfloat \<Rightarrow> pyfloat \<Rightarrow> error + pyfloat" where
  "truediv (Finite a) (Finite b) =
     (if b = 0 then Inl ZeroDivisionError else Inr (Finite (round_double (a / b))))"
| "truediv _ _ = Inr NaN"

fun fgt :: "pyfloat \<Rightarrow> pyfloat \<Rightarrow> bool" where
  "fgt (Finite a) (Finite b) = (b < a)"
| "fgt _ _ = False"

subsubsection \<open>Sequences\<close>

definition slice :: "'a list \<Rightarrow> nat \<Rightarrow> nat \<Rightarrow> 'a list" where
  \<comment> \<open>\<^verbatim>\<open>xs[a:b]\<close> for non-negative bounds: shorter than \<open>b - a\<close> when \<open>xs\<close> ends early\<close>
  "slice xs a b = take (b - a) (drop a xs)"

definition py_index :: "'a list \<Rightarrow> int \<Rightarrow> error + nat" where
  \<comment> \<open>the position a list subscript denotes: a negative one counts from the end\<close>
  "py_index xs i =
     (let n = int (length xs); j = (if i < 0 then i + n else i)
      in if 0 \<le> j \<and> j < n then Inr (nat j) else Inl IndexError)"

subsubsection \<open>String formatting\<close>

fun digits :: "nat \<Rightarrow> string" where
  "digits n =
     (if n < 10 then [''0123456789'' ! n]
      else digits (n div 10) @ [''0123456789'' ! (n mod 10)])"

declare digits.simps [simp del]

definition zfill :: "nat \<Rightarrow> string \<Rightarrow> string" where
  "zfill w s = replicate (w - length s) (CHR ''0'') @ s"

definition fmt_0d :: "nat \<Rightarrow> int \<Rightarrow> string" where
  \<comment> \<open>the format specification \<^verbatim>\<open>0wd\<close>: at least \<open>w\<close> characters, zero padded after the sign\<close>
  "fmt_0d w n =
     (if n < 0 then CHR ''-'' # zfill (w - 1) (digits (nat (- n)))
      else zfill w (digits (nat n)))"

subsection \<open>The time stamp of a record\<close>

fun unpack_6B :: "byte list \<Rightarrow> error + (int \<times> int \<times> int \<times> int \<times> int \<times> int)" where
  "unpack_6B [a, b, c, d, e, f] = Inr (uint a, uint b, uint c, uint d, uint e, uint f)"
| "unpack_6B _ = Inl StructError"

definition norm_year :: "int \<Rightarrow> int" where
  \<comment> \<open>lines 167 to 170\<close>
  "norm_year year = (if year < 90 then year + 2000 else year + 1900)"

definition format_time :: "int \<Rightarrow> int \<Rightarrow> int \<Rightarrow> int \<Rightarrow> int \<Rightarrow> string" where
  \<comment> \<open>line 171\<close>
  "format_time year month day hour minute =
     fmt_0d 4 year @ ''-'' @ fmt_0d 2 month @ ''-'' @ fmt_0d 2 day @ '' ''
       @ fmt_0d 2 hour @ '':'' @ fmt_0d 2 minute"

definition chunk_time :: "byte list \<Rightarrow> error + string" where
  \<comment> \<open>lines 165 to 171: the label computed from bytes 4 to 9 of the record\<close>
  "chunk_time chunk =
     (case unpack_6B (slice chunk 4 10) of
        Inl e \<Rightarrow> Inl e
      | Inr (year, month, day, hour, minute, second) \<Rightarrow>
          Inr (format_time (norm_year year) month day hour minute))"

subsection \<open>One mill sub-record\<close>

definition chunksize :: nat where
  "chunksize = 7184"

definition chunk2size :: nat where
  "chunk2size = 112"

definition short :: "byteorder \<Rightarrow> byte \<Rightarrow> byte \<Rightarrow> int" where
  \<comment> \<open>format character \<^verbatim>\<open>h\<close>: two bytes, in the order of the file, as a signed 16-bit integer\<close>
  "short bo a b =
     (case bo of
        Big \<Rightarrow> sint (word_cat a b :: 16 word)
      | Little \<Rightarrow> sint (word_cat b a :: 16 word))"

fun shorts :: "byteorder \<Rightarrow> byte list \<Rightarrow> int list" where
  "shorts bo (a # b # bs) = short bo a b # shorts bo bs"
| "shorts bo _ = []"

definition unpack_mill :: "byteorder \<Rightarrow> byte list \<Rightarrow> error + int list" where
  \<comment> \<open>\<^verbatim>\<open>struct.unpack("BB7xB50h2x", d)\<close>: 112 bytes exactly, 53 integers returned\<close>
  "unpack_mill bo d =
     (if length d \<noteq> 112 then Inl StructError
      else Inr (uint (d ! 0) # uint (d ! 1) # uint (d ! 9) # shorts bo (slice d 10 110)))"

record window =
  second_count :: nat
  mill_counts :: "pyfloat list"
  mill_values :: "pyfloat list"

definition mill_body :: "byteorder \<Rightarrow> byte list \<Rightarrow> nat \<Rightarrow> window \<Rightarrow> error + window" where
  \<comment> \<open>lines 177 to 186, the body of \<^verbatim>\<open>for i in range(34)\<close>\<close>
  "mill_body bo chunk2 i w =
     (case unpack_mill bo (slice chunk2 (i * chunk2size) ((i + 1) * chunk2size)) of
        Inl e \<Rightarrow> Inl e
      | Inr x \<Rightarrow>
          if x ! 1 \<noteq> 1 then Inr w
          else
            let address = x ! 0; rain = x ! 2 in
            (case py_index (mill_values w) (address - 1) of
               Inl e \<Rightarrow> Inl e
             | Inr j \<Rightarrow>
                 (case truediv (float_of (sum_list (drop 3 x)))
                               (float_of (int (length (drop 3 x)))) of
                    Inl e \<Rightarrow> Inl e
                  | Inr m \<Rightarrow>
                      (case py_index (mill_counts w) (address - 1) of
                         Inl e \<Rightarrow> Inl e
                       | Inr k \<Rightarrow>
                           Inr (w\<lparr>mill_values := (mill_values w)[j := fadd (mill_values w ! j) m],
                                  mill_counts :=
                                    (mill_counts w)[k := fadd (mill_counts w ! k) (float_of 1)]\<rparr>)))))"

fun for_mills :: "byteorder \<Rightarrow> byte list \<Rightarrow> nat list \<Rightarrow> window \<Rightarrow> error + window" where
  "for_mills bo chunk2 [] w = Inr w"
| "for_mills bo chunk2 (i # rest) w =
     (case mill_body bo chunk2 i w of
        Inl e \<Rightarrow> Inl e
      | Inr w' \<Rightarrow> for_mills bo chunk2 rest w')"

subsection \<open>One iteration of the reading loop\<close>

type_synonym row = "string \<times> pyfloat list"

datatype step = Break | Raise error | Next window "row option"

definition start_minute :: "window \<Rightarrow> window" where
  \<comment> \<open>lines 159 to 162\<close>
  "start_minute w =
     (if second_count w = 0
      then w\<lparr>mill_counts := replicate 34 (Finite 0), mill_values := replicate 34 (Finite 0)\<rparr>
      else w)"

definition average_at :: "window \<Rightarrow> nat \<Rightarrow> error + pyfloat" where
  \<comment> \<open>line 193, one element of the comprehension; the condition is evaluated first\<close>
  "average_at w i =
     (case py_index (mill_counts w) (int i) of
        Inl e \<Rightarrow> Inl e
      | Inr k \<Rightarrow>
          if fgt (mill_counts w ! k) (float_of 0)
          then (case py_index (mill_values w) (int i) of
                  Inl e \<Rightarrow> Inl e
                | Inr j \<Rightarrow> truediv (mill_values w ! j) (mill_counts w ! k))
          else Inr NaN)"

fun collect :: "(nat \<Rightarrow> error + 'a) \<Rightarrow> nat list \<Rightarrow> error + 'a list" where
  "collect g [] = Inr []"
| "collect g (i # rest) =
     (case g i of
        Inl e \<Rightarrow> Inl e
      | Inr v \<Rightarrow> (case collect g rest of Inl e \<Rightarrow> Inl e | Inr vs \<Rightarrow> Inr (v # vs)))"

definition averages :: "window \<Rightarrow> error + pyfloat list" where
  \<comment> \<open>lines 193 and 194\<close>
  "averages w = collect (average_at w) [0..<length (mill_values w)]"

definition iteration :: "byteorder \<Rightarrow> window \<Rightarrow> byte list \<Rightarrow> step" where
  \<comment> \<open>lines 158 to 197, with \<open>chunk\<close> the result of \<^verbatim>\<open>f.read(chunksize)\<close>\<close>
  "iteration bo w0 chunk =
     (let w = start_minute w0 in
      if chunk \<noteq> [] then
        (case chunk_time chunk of
           Inl e \<Rightarrow> Raise e
         | Inr time \<Rightarrow>
             let chunk2 = drop 16 chunk in
             (case for_mills bo chunk2 [0..<34] w of
                Inl e \<Rightarrow> Raise e
              | Inr w1 \<Rightarrow>
                  let w2 = w1\<lparr>second_count := second_count w1 + 1\<rparr> in
                  if second_count w2 = 60 then
                    (case averages w2 of
                       Inl e \<Rightarrow> Raise e
                     | Inr vals \<Rightarrow> Next (w2\<lparr>second_count := 0\<rparr>) (Some (time, vals)))
                  else Next w2 None))
      else Break)"

subsection \<open>The loop over a file\<close>

text \<open>
  The file is its byte content. \<^verbatim>\<open>f.read(chunksize)\<close> returns the next 7184 bytes, fewer
  at the end of the file and none after it. The result is the list of rows handed to
  \<^verbatim>\<open>writer.writerow\<close>, in order, and the exception that ended the call, if one did.
\<close>

function read_loop :: "byteorder \<Rightarrow> window \<Rightarrow> byte list \<Rightarrow> row list \<times> error option" where
  "read_loop bo w f =
     (case iteration bo w (take chunksize f) of
        Break \<Rightarrow> ([], None)
      | Raise e \<Rightarrow> ([], Some e)
      | Next w' r \<Rightarrow>
          (let (rows, res) = read_loop bo w' (drop chunksize f)
           in (case r of None \<Rightarrow> rows | Some new_row \<Rightarrow> new_row # rows, res)))"
  by pat_completeness auto
termination
proof (relation "measure (\<lambda>(bo, w, f). length f)")
  show "wf (measure (\<lambda>(bo, w, f). length f))" by simp
next
  fix bo w f w' r
  assume "iteration bo w (take chunksize f) = Next w' r"
  then have "take chunksize f \<noteq> []"
    by (auto simp: iteration_def Let_def split: if_splits)
  then have "f \<noteq> []" by auto
  then show "((bo, w', drop chunksize f), (bo, w, f)) \<in> measure (\<lambda>(bo, w, f). length f)"
    by (simp add: chunksize_def)
qed

declare read_loop.simps [simp del]

definition initial :: window where
  \<comment> \<open>line 154: before the first iteration only \<^verbatim>\<open>second_count\<close> is bound\<close>
  "initial = \<lparr>second_count = 0, mill_counts = [], mill_values = []\<rparr>"

definition translate_KSC :: "byteorder \<Rightarrow> byte list \<Rightarrow> row list \<times> error option" where
  "translate_KSC bo infile = read_loop bo initial infile"

subsection \<open>Vocabulary of the statements\<close>

text \<open>
  The names below are not part of the program: they say which bytes of a record a
  statement is about, and what one valid sub-record does to the accumulators.
\<close>

definition sub_record :: "byte list \<Rightarrow> nat \<Rightarrow> byte list" where
  \<comment> \<open>the \<open>i\<close>-th mill sub-record of a record, bytes \<open>16 + 112 i\<close> to \<open>16 + 112 (i + 1)\<close>\<close>
  "sub_record chunk i = slice (drop 16 chunk) (i * 112) ((i + 1) * 112)"

definition address :: "byte list \<Rightarrow> int" where
  "address d = uint (d ! 0)"

definition mode :: "byte list \<Rightarrow> int" where
  "mode d = uint (d ! 1)"

definition samples :: "byteorder \<Rightarrow> byte list \<Rightarrow> int list" where
  \<comment> \<open>bytes 10 to 109 of a sub-record as 50 signed 16-bit integers\<close>
  "samples bo d = shorts bo (slice d 10 110)"

definition mean50 :: "int list \<Rightarrow> pyfloat" where
  \<comment> \<open>the arithmetic mean of 50 integers, rounded once to the nearest float\<close>
  "mean50 xs = Finite (round_double (of_int (sum_list xs) / 50))"

definition slot :: "int \<Rightarrow> nat" where
  \<comment> \<open>the position \<^verbatim>\<open>address-1\<close> denotes in a list of 34 elements, for an address up to 34\<close>
  "slot a = (if a = 0 then 33 else nat (a - 1))"

definition credit :: "nat \<Rightarrow> pyfloat \<Rightarrow> window \<Rightarrow> window" where
  \<comment> \<open>add \<open>m\<close> to the sum and 1 to the count of position \<open>j\<close>\<close>
  "credit j m w =
     w\<lparr>mill_values := (mill_values w)[j := fadd (mill_values w ! j) m],
       mill_counts := (mill_counts w)[j := fadd (mill_counts w ! j) (Finite 1)]\<rparr>"

definition fold_mill :: "byteorder \<Rightarrow> byte list \<Rightarrow> window \<Rightarrow> nat \<Rightarrow> window" where
  "fold_mill bo chunk w i =
     (let d = sub_record chunk i
      in if mode d = 1 then credit (slot (address d)) (mean50 (samples bo d)) w else w)"

definition fold_record :: "byteorder \<Rightarrow> byte list \<Rightarrow> window \<Rightarrow> window" where
  "fold_record bo chunk w = foldl (fold_mill bo chunk) w [0..<34]"

definition addresses_ok :: "byte list \<Rightarrow> bool" where
  \<comment> \<open>no sub-record in data mode carries an address above 34\<close>
  "addresses_ok chunk =
     list_all (\<lambda>i. mode (sub_record chunk i) = 1 \<longrightarrow> address (sub_record chunk i) \<le> 34) [0..<34]"

definition ready :: "window \<Rightarrow> bool" where
  \<comment> \<open>both accumulators are the 34-element lists of lines 161 and 162\<close>
  "ready w = (length (mill_values w) = 34 \<and> length (mill_counts w) = 34)"

definition label :: "byte list \<Rightarrow> string" where
  \<comment> \<open>the time label of a record of at least 10 bytes\<close>
  "label chunk =
     format_time (norm_year (uint (chunk ! 4))) (uint (chunk ! 5)) (uint (chunk ! 6))
       (uint (chunk ! 7)) (uint (chunk ! 8))"

definition average :: "pyfloat \<Rightarrow> pyfloat \<Rightarrow> pyfloat" where
  \<comment> \<open>sum over count, rounded, where the count is above zero; not-a-number otherwise\<close>
  "average v c =
     (if fgt c (Finite 0)
      then (case (v, c) of (Finite a, Finite b) \<Rightarrow> Finite (round_double (a / b)) | _ \<Rightarrow> NaN)
      else NaN)"


section \<open>Properties\<close>

subsection \<open>Unpacking\<close>

lemma length_slice: "length (slice xs a b) = min (b - a) (length xs - a)"
  by (simp add: slice_def)

lemma list6: "length xs = 6 \<Longrightarrow> xs = [xs ! 0, xs ! 1, xs ! 2, xs ! 3, xs ! 4, xs ! 5]"
  by (auto simp: numeral_eq_Suc length_Suc_conv)

lemma unpack_6B_ok:
  "length xs = 6 \<Longrightarrow>
   unpack_6B xs =
     Inr (uint (xs ! 0), uint (xs ! 1), uint (xs ! 2), uint (xs ! 3), uint (xs ! 4), uint (xs ! 5))"
  by (subst list6, assumption) (simp del: One_nat_def)

lemma unpack_6B_bad: "length xs \<noteq> 6 \<Longrightarrow> unpack_6B xs = Inl StructError"
  by (cases xs rule: unpack_6B.cases) auto

lemma chunk_time_short: "length chunk < 10 \<Longrightarrow> chunk_time chunk = Inl StructError"
  by (simp add: chunk_time_def unpack_6B_bad length_slice)

lemma chunk_time_ok:
  "10 \<le> length chunk \<Longrightarrow>
   chunk_time chunk =
     Inr (format_time (norm_year (uint (chunk ! 4))) (uint (chunk ! 5)) (uint (chunk ! 6))
            (uint (chunk ! 7)) (uint (chunk ! 8)))"
  by (simp add: chunk_time_def unpack_6B_ok length_slice slice_def)

lemma length_shorts: "length (shorts bo bs) = length bs div 2"
  by (induction bo bs rule: shorts.induct) auto

lemma float_of_0: "float_of 0 = Finite 0"
  by (simp add: float_of_def round_double_def)

lemma float_of_1: "float_of 1 = Finite 1"
  by code_simp

lemma float_of_50: "float_of 50 = Finite 50"
  by code_simp

subsection \<open>Integers below \<open>2\<^sup>5\<^sup>3\<close> are floats\<close>

lemma powi_diff_nat: "(2::rat) powi (int a - int b) = 2 ^ a / 2 ^ b"
  using power_int_diff [of "2::rat" "int a" "int b"] by simp

lemma floor_log2_bounds:
  assumes "0 < x"
  shows "2 powi floor_log2 x \<le> x" and "x < 2 powi (floor_log2 x + 1)"
proof -
  obtain p q where pq: "quotient_of x = (p, q)" by (cases "quotient_of x")
  have q: "0 < q" using pq by (rule quotient_of_denom_pos)
  have x: "x = of_int p / of_int q" using pq by (rule quotient_of_div)
  have p: "0 < p" using assms q x by (simp add: zero_less_divide_iff)
  define bp where "bp = floorlog 2 (nat p)"
  define bq where "bq = floorlog 2 (nat q)"
  define d where "d = int bp - int bq"
  have bp: "2 ^ (bp - 1) \<le> nat p" "nat p < 2 ^ bp"
    using floorlog_bounds [of "nat p" 2] p by (simp_all add: bp_def)
  have bq: "2 ^ (bq - 1) \<le> nat q" "nat q < 2 ^ bq"
    using floorlog_bounds [of "nat q" 2] q by (simp_all add: bq_def)
  have bp0: "0 < bp" using floorlog_eq_zero_iff [of 2 "nat p"] p by (auto simp: bp_def)
  have bq0: "0 < bq" using floorlog_eq_zero_iff [of 2 "nat q"] q by (auto simp: bq_def)
  have fl: "floor_log2 x = (if 2 powi d \<le> x then d else d - 1)"
    by (simp add: floor_log2_def pq d_def bp_def bq_def Let_def)
  have "(of_nat (2 ^ (bp - 1)) :: rat) \<le> of_nat (nat p)" using bp(1) by (simp only: of_nat_le_iff)
  then have p1: "(2::rat) ^ (bp - 1) \<le> of_int p" using p by simp
  have "(of_nat (nat p) :: rat) < of_nat (2 ^ bp)" using bp(2) by (simp only: of_nat_less_iff)
  then have p2: "of_int p < (2::rat) ^ bp" using p by simp
  have "(of_nat (2 ^ (bq - 1)) :: rat) \<le> of_nat (nat q)" using bq(1) by (simp only: of_nat_le_iff)
  then have q1: "(2::rat) ^ (bq - 1) \<le> of_int q" using q by simp
  have "(of_nat (nat q) :: rat) < of_nat (2 ^ bq)" using bq(2) by (simp only: of_nat_less_iff)
  then have q2: "of_int q < (2::rat) ^ bq" using q by simp
  have qpos: "(0::rat) < of_int q" using q by simp
  have "d + 1 = int bp - int (bq - 1)" using bq0 by (simp add: d_def)
  then have e1: "(2::rat) powi (d + 1) = 2 ^ bp / 2 ^ (bq - 1)" by (simp only: powi_diff_nat)
  have "d - 1 = int (bp - 1) - int bq" using bp0 by (simp add: d_def)
  then have e2: "(2::rat) powi (d - 1) = 2 ^ (bp - 1) / 2 ^ bq" by (simp only: powi_diff_nat)
  have "x * 2 ^ (bq - 1) \<le> x * of_int q" using q1 assms by simp
  also have "\<dots> = of_int p" using qpos by (simp add: x)
  also have "\<dots> < 2 ^ bp" by (rule p2)
  finally have up: "x < 2 powi (d + 1)" by (simp add: e1 pos_less_divide_eq)
  have "(2::rat) ^ (bp - 1) \<le> of_int p" by (rule p1)
  also have "\<dots> = x * of_int q" using qpos by (simp add: x)
  also have "\<dots> < x * 2 ^ bq" using q2 assms by simp
  finally have lo: "2 powi (d - 1) \<le> x" by (simp add: e2 pos_divide_le_eq)
  show "2 powi floor_log2 x \<le> x" using lo by (simp add: fl)
  show "x < 2 powi (floor_log2 x + 1)" using up by (auto simp add: fl not_le)
qed

lemma round_half_even_int: "round_half_even (of_int m) = m"
  by (simp add: round_half_even_def)

lemma round_double_int:
  assumes "\<bar>n\<bar> < 2 ^ 53"
  shows "round_double (of_int n) = of_int n"
proof (cases "n = 0")
  case True
  then show ?thesis by (simp add: round_double_def)
next
  case False
  define x :: rat where "x = \<bar>of_int n\<bar>"
  have x1: "1 \<le> x" using False by (simp add: x_def) 
  have x53: "x < 2 ^ 53" using assms unfolding x_def
    by (metis of_int_abs of_int_less_iff of_int_numeral of_int_power)
  have xpos: "0 < x" using x1 by simp
  define l where "l = floor_log2 x"
  have "(2::rat) powi l < 2 powi 53"
    using floor_log2_bounds(1) [OF xpos] x53 by (simp add: l_def)
  then have lu: "l < 53"
    using power_int_le_imp_less_exp [of "2::rat" l 53] by simp
  have ll: "0 \<le> l"
  proof (rule ccontr)
    assume "\<not> 0 \<le> l"
    then have "l + 1 \<le> 0" by simp
    then have "(2::rat) powi (l + 1) \<le> 2 powi 0"
      by (rule power_int_increasing) simp
    moreover have "x < 2 powi (l + 1)"
      using floor_log2_bounds(2) [OF xpos] by (simp add: l_def)
    ultimately show False using x1 by simp
  qed
  define k where "k = nat (52 - l)"
  have e: "max l (- 1022) - 52 = - int k" using lu ll by (simp add: k_def)
  have u: "(2::rat) powi (- int k) = 1 / 2 ^ k"
    by (simp add: power_int_minus divide_simps)
  have "of_int n * 2 ^ k = (of_int (n * 2 ^ k) :: rat)" by simp
  then have r: "round_half_even (of_int n * 2 ^ k) = n * 2 ^ k"
    by (simp only: round_half_even_int)
  show ?thesis
    using False
    by (simp add: round_double_def Let_def x_def [symmetric] l_def [symmetric] e u r del: of_int_abs)
qed

lemma float_of_exact: "\<bar>n\<bar> < 2 ^ 53 \<Longrightarrow> float_of n = Finite (of_int n)"
  by (simp add: float_of_def round_double_int)

subsection \<open>One sub-record\<close>

lemma short_bounds: "- 32768 \<le> short bo a b \<and> short bo a b < 32768"
proof -
  have "- (2 ^ (LENGTH(16) - 1)) \<le> sint (w :: 16 word) \<and> sint w < 2 ^ (LENGTH(16) - 1)" for w
    using sint_ge [of w] sint_lt [of w] by simp
  then have "- 32768 \<le> sint (w :: 16 word) \<and> sint w < 32768" for w by simp
  then show ?thesis by (simp add: short_def split: byteorder.split)
qed

lemma sum_shorts_bound: "\<bar>sum_list (shorts bo bs)\<bar> \<le> 32768 * int (length (shorts bo bs))"
proof (induction bo bs rule: shorts.induct)
  case (1 bo a b bs)
  then show ?case using short_bounds [of bo a b] by (simp add: abs_le_iff)
qed simp_all

lemma length_samples: "length d = 112 \<Longrightarrow> length (samples bo d) = 50"
  by (simp add: samples_def length_shorts length_slice)

lemma sum_samples_small: "length d = 112 \<Longrightarrow> \<bar>sum_list (samples bo d)\<bar> < 2 ^ 53"
proof -
  assume d: "length d = 112"
  have "\<bar>sum_list (samples bo d)\<bar> \<le> 32768 * int (length (samples bo d))"
    unfolding samples_def by (rule sum_shorts_bound)
  then show ?thesis by (simp add: length_samples [OF d])
qed

lemma mean_of_samples:
  assumes "length d = 112"
  shows "truediv (float_of (sum_list (samples bo d))) (float_of (int (length (samples bo d))))
         = Inr (mean50 (samples bo d))"
proof -
  have "float_of (sum_list (samples bo d)) = Finite (of_int (sum_list (samples bo d)))"
    by (rule float_of_exact [OF sum_samples_small [OF assms]])
  then show ?thesis
    by (simp add: length_samples [OF assms] float_of_50 mean50_def)
qed

lemma unpack_mill_ok:
  "length d = 112 \<Longrightarrow>
   unpack_mill bo d = Inr (address d # mode d # uint (d ! 9) # samples bo d)"
  by (simp add: unpack_mill_def address_def mode_def samples_def)

lemma unpack_mill_bad: "length d \<noteq> 112 \<Longrightarrow> unpack_mill bo d = Inl StructError"
  by (simp add: unpack_mill_def)

lemma py_index_34:
  "length xs = 34 \<Longrightarrow> 0 \<le> a \<Longrightarrow>
   py_index xs (a - 1) = (if a \<le> 34 then Inr (slot a) else Inl IndexError)"
  by (auto simp: py_index_def slot_def Let_def)

lemma address_nonneg: "0 \<le> address d"
  by (simp add: address_def)

lemma mill_body_short:
  "length (slice chunk2 (i * chunk2size) ((i + 1) * chunk2size)) \<noteq> 112 \<Longrightarrow>
   mill_body bo chunk2 i w = Inl StructError"
  by (simp add: mill_body_def unpack_mill_bad)

lemma mill_body_full:
  assumes "d = slice chunk2 (i * chunk2size) ((i + 1) * chunk2size)" and "length d = 112"
    and "ready w"
  shows "mill_body bo chunk2 i w =
           (if mode d \<noteq> 1 then Inr w
            else if address d \<le> 34 then Inr (credit (slot (address d)) (mean50 (samples bo d)) w)
            else Inl IndexError)"
  using assms mean_of_samples [OF assms(2), of bo]
  by (simp add: mill_body_def unpack_mill_ok py_index_34 address_nonneg ready_def credit_def
        float_of_1 Let_def)

lemma ready_credit: "ready (credit j m w) = ready w"
  by (simp add: ready_def credit_def)

lemma second_count_credit: "second_count (credit j m w) = second_count w"
  by (simp add: credit_def)

subsection \<open>The 34 sub-records of a record, and the averages\<close>

lemma sub_record_length:
  "i < 34 \<Longrightarrow> 3824 \<le> length chunk \<Longrightarrow> length (sub_record chunk i) = 112"
  by (simp add: sub_record_def length_slice)

lemma sub_record_slice:
  "slice (drop 16 chunk) (i * chunk2size) ((i + 1) * chunk2size) = sub_record chunk i"
  by (simp add: sub_record_def chunk2size_def)

lemma ready_fold_mill: "ready (fold_mill bo chunk w i) = ready w"
  by (simp add: fold_mill_def Let_def ready_credit)

lemma second_count_fold_mill: "second_count (fold_mill bo chunk w i) = second_count w"
  by (simp add: fold_mill_def Let_def second_count_credit)

lemma ready_foldl: "ready (foldl (fold_mill bo chunk) w js) = ready w"
  by (induction js arbitrary: w) (simp_all add: ready_fold_mill)

lemma second_count_foldl: "second_count (foldl (fold_mill bo chunk) w js) = second_count w"
  by (induction js arbitrary: w) (simp_all add: second_count_fold_mill)

lemma mill_body_sub_record:
  assumes "i < 34" and "3824 \<le> length chunk" and "ready w"
  shows "mill_body bo (drop 16 chunk) i w =
           (if mode (sub_record chunk i) = 1 \<and> 34 < address (sub_record chunk i)
            then Inl IndexError else Inr (fold_mill bo chunk w i))"
  using mill_body_full [OF sub_record_slice [symmetric] sub_record_length [OF assms(1,2)] assms(3),
      of bo]
  by (simp add: fold_mill_def Let_def)

lemma for_mills_full:
  assumes "3824 \<le> length chunk" and "ready w" and "\<forall>i\<in>set js. i < 34"
  shows "for_mills bo (drop 16 chunk) js w =
           (if list_all (\<lambda>i. mode (sub_record chunk i) = 1 \<longrightarrow> address (sub_record chunk i) \<le> 34) js
            then Inr (foldl (fold_mill bo chunk) w js) else Inl IndexError)"
  using assms(2,3)
proof (induction js arbitrary: w)
  case Nil
  then show ?case by simp
next
  case (Cons i js)
  have i: "i < 34" using Cons.prems by simp
  have r: "ready (fold_mill bo chunk w i)" using Cons.prems by (simp add: ready_fold_mill)
  have rest: "\<forall>i\<in>set js. i < 34" using Cons.prems by simp
  show ?case
    using mill_body_sub_record [OF i assms(1) Cons.prems(1), of bo] Cons.IH [OF r rest]
    by (auto simp: not_le)
qed

lemma for_mills_record:
  "3824 \<le> length chunk \<Longrightarrow> ready w \<Longrightarrow>
   for_mills bo (drop 16 chunk) [0..<34] w =
     (if addresses_ok chunk then Inr (fold_record bo chunk w) else Inl IndexError)"
  using for_mills_full [of chunk w "[0..<34]" bo]
  by (simp add: addresses_ok_def fold_record_def del: upt_Suc)

lemma for_mills_short:
  assumes "i \<in> set js"
    and "length (slice chunk2 (i * chunk2size) ((i + 1) * chunk2size)) \<noteq> 112"
  shows "\<exists>e. for_mills bo chunk2 js w = Inl e"
  using assms(1)
proof (induction js arbitrary: w)
  case Nil
  then show ?case by simp
next
  case (Cons j js)
  show ?case
  proof (cases "mill_body bo chunk2 j w")
    case (Inl e)
    then show ?thesis by simp
  next
    case (Inr w')
    then have "j \<noteq> i" using mill_body_short [OF assms(2), of bo w] by auto
    then have "i \<in> set js" using Cons.prems by simp
    then show ?thesis using Cons.IH [of w'] Inr by simp
  qed
qed

lemma for_mills_truncated:
  assumes "length chunk < 3824"
  shows "\<exists>e. for_mills bo (drop 16 chunk) [0..<34] w = Inl e"
proof (rule for_mills_short [of 33])
  show "33 \<in> set [0..<34]" by simp
  show "length (slice (drop 16 chunk) (33 * chunk2size) ((33 + 1) * chunk2size)) \<noteq> 112"
    using assms by (simp add: length_slice chunk2size_def)
qed

lemma ready_start_minute: "second_count w = 0 \<or> ready w \<Longrightarrow> ready (start_minute w)"
  by (auto simp: start_minute_def ready_def)

lemma second_count_start_minute: "second_count (start_minute w) = second_count w"
  by (simp add: start_minute_def)

lemma average_at_ready:
  "i < 34 \<Longrightarrow> ready w \<Longrightarrow>
   average_at w i = Inr (average (mill_values w ! i) (mill_counts w ! i))"
  by (cases "mill_values w ! i"; cases "mill_counts w ! i")
     (auto simp: average_at_def py_index_def ready_def average_def float_of_0 Let_def)

lemma collect_map: "\<forall>i\<in>set js. g i = Inr (h i) \<Longrightarrow> collect g js = Inr (map h js)"
  by (induction js) simp_all

lemma averages_ready:
  "ready w \<Longrightarrow>
   averages w = Inr (map (\<lambda>i. average (mill_values w ! i) (mill_counts w ! i)) [0..<34])"
proof -
  assume r: "ready w"
  then have "length (mill_values w) = 34" by (simp add: ready_def)
  then show ?thesis
    unfolding averages_def
    by (simp only:) (rule collect_map, simp add: average_at_ready r)
qed

subsection \<open>One iteration\<close>

lemma iteration_empty: "iteration bo w [] = Break"
  by (simp add: iteration_def)

lemma iteration_full:
  assumes "3824 \<le> length chunk" and "second_count w = 0 \<or> ready w"
  shows "iteration bo w chunk =
           (if \<not> addresses_ok chunk then Raise IndexError
            else let w1 = fold_record bo chunk (start_minute w)
                 in if second_count w + 1 = 60
                    then Next (w1\<lparr>second_count := 0\<rparr>)
                           (Some (label chunk,
                                  map (\<lambda>i. average (mill_values w1 ! i) (mill_counts w1 ! i)) [0..<34]))
                    else Next (w1\<lparr>second_count := second_count w + 1\<rparr>) None)"
proof -
  have ne: "chunk \<noteq> []" using assms(1) by auto
  have t: "chunk_time chunk = Inr (label chunk)"
    using assms(1) by (simp add: chunk_time_ok label_def)
  have r: "ready (start_minute w)" using assms(2) by (rule ready_start_minute)
  have f: "for_mills bo (drop 16 chunk) [0..<34] (start_minute w) =
             (if addresses_ok chunk then Inr (fold_record bo chunk (start_minute w))
              else Inl IndexError)"
    using assms(1) r by (rule for_mills_record)
  have r1: "ready (fold_record bo chunk (start_minute w))"
    using r by (simp add: fold_record_def ready_foldl)
  have c1: "second_count (fold_record bo chunk (start_minute w)) = second_count w"
    by (simp add: fold_record_def second_count_foldl second_count_start_minute)
  have r2: "ready (fold_record bo chunk (start_minute w)\<lparr>second_count := n\<rparr>)" for n
    using r1 by (simp add: ready_def)
  show ?thesis
    by (simp add: iteration_def Let_def ne t f c1 averages_ready [OF r2] del: upt_Suc)
qed

lemma mill_body_errors:
  "mill_body bo chunk2 i w = Inl e \<Longrightarrow> e = StructError \<or> e = IndexError"
proof (cases "length (slice chunk2 (i * chunk2size) ((i + 1) * chunk2size)) = 112")
  case False
  assume "mill_body bo chunk2 i w = Inl e"
  then show ?thesis using mill_body_short [OF False, of bo w] by simp
next
  case True
  assume a: "mill_body bo chunk2 i w = Inl e"
  define d where "d = slice chunk2 (i * chunk2size) ((i + 1) * chunk2size)"
  have len: "length d = 112" using True by (simp only: d_def)
  note mb = mill_body_def [of bo chunk2 i w, folded d_def]
  have m: "truediv (float_of (sum_list (drop 3 (address d # mode d # uint (d ! 9) # samples bo d))))
             (float_of (int (length (drop 3 (address d # mode d # uint (d ! 9) # samples bo d)))))
           = Inr (mean50 (samples bo d))"
    using mean_of_samples [OF len, of bo] by simp
  show ?thesis
    using a unfolding mb unpack_mill_ok [OF len] 
    by (simp only: sum.case m Let_def) (auto simp: py_index_def Let_def split: if_splits sum.splits)
qed

lemma for_mills_errors:
  "for_mills bo chunk2 js w = Inl e \<Longrightarrow> e = StructError \<or> e = IndexError"
proof (induction js arbitrary: w)
  case Nil
  then show ?case by simp
next
  case (Cons j js)
  then show ?case
    by (cases "mill_body bo chunk2 j w") (auto dest: mill_body_errors)
qed

lemma iteration_truncated:
  assumes "chunk \<noteq> []" and "length chunk < 3824"
  shows "iteration bo w chunk = Raise StructError \<or> iteration bo w chunk = Raise IndexError"
proof (cases "length chunk < 10")
  case True
  then show ?thesis using assms(1) by (simp add: iteration_def chunk_time_short)
next
  case False
  then have t: "chunk_time chunk = Inr (label chunk)"
    by (simp add: chunk_time_ok label_def)
  obtain e where e: "for_mills bo (drop 16 chunk) [0..<34] (start_minute w) = Inl e"
    using for_mills_truncated [OF assms(2)] by blast
  then have "e = StructError \<or> e = IndexError" by (rule for_mills_errors)
  then show ?thesis using assms(1) e t by (auto simp: iteration_def Let_def simp del: upt_Suc)
qed

lemma iteration_Next_length:
  "iteration bo w chunk = Next w' r \<Longrightarrow> 3824 \<le> length chunk"
proof (rule ccontr)
  assume n: "iteration bo w chunk = Next w' r" and "\<not> 3824 \<le> length chunk"
  then have s: "length chunk < 3824" by simp
  show False
  proof (cases "chunk = []")
    case True
    then show False using n by (simp add: iteration_empty)
  next
    case False
    then show False using iteration_truncated [OF False s, of bo w] n by auto
  qed
qed

subsection \<open>Bytes an iteration reads\<close>

lemma mill_body_cong:
  assumes "slice c (i * chunk2size) ((i + 1) * chunk2size) = slice c' (i * chunk2size) ((i + 1) * chunk2size)"
  shows "mill_body bo c i w = mill_body bo c' i w"
  unfolding mill_body_def assms ..

lemma for_mills_cong:
  assumes "\<forall>i\<in>set js. slice c (i * chunk2size) ((i + 1) * chunk2size)
                       = slice c' (i * chunk2size) ((i + 1) * chunk2size)"
  shows "for_mills bo c js w = for_mills bo c' js w"
  using assms
proof (induction js arbitrary: w)
  case Nil
  then show ?case by simp
next
  case (Cons j js)
  have "mill_body bo c j w = mill_body bo c' j w"
    using Cons.prems by (intro mill_body_cong) simp
  moreover have "for_mills bo c js v = for_mills bo c' js v" for v
    using Cons.prems by (intro Cons.IH) simp
  ultimately show ?case by (cases "mill_body bo c' j w") simp_all
qed

lemma iteration_cong:
  assumes "(chunk = []) = (chunk' = [])"
    and "slice chunk 4 10 = slice chunk' 4 10"
    and "\<forall>i\<in>set [0..<34]. slice (drop 16 chunk) (i * chunk2size) ((i + 1) * chunk2size)
                       = slice (drop 16 chunk') (i * chunk2size) ((i + 1) * chunk2size)"
  shows "iteration bo w chunk = iteration bo w chunk'"
proof -
  have t: "chunk_time chunk = chunk_time chunk'"
    by (simp only: chunk_time_def assms(2))
  have f: "for_mills bo (drop 16 chunk) [0..<34] v = for_mills bo (drop 16 chunk') [0..<34] v" for v
    using assms(3) by (rule for_mills_cong)
  show ?thesis
    by (simp add: iteration_def Let_def t f assms(1) del: upt_Suc split: sum.split)
qed

lemma take_drop_take: "k + n \<le> m \<Longrightarrow> take n (drop k (take m xs)) = take n (drop k xs)"
  by (simp add: drop_take min_def)

lemma slice_of_prefix:
  assumes "i < 34"
  shows "slice c (i * chunk2size) ((i + 1) * chunk2size)
         = slice (take 3808 c) (i * chunk2size) ((i + 1) * chunk2size)"
proof -
  have "i * 112 + 112 \<le> 3808" using assms by simp
  then have "take 112 (drop (i * 112) (take 3808 c)) = take 112 (drop (i * 112) c)"
    by (rule take_drop_take)
  then show ?thesis by (simp add: slice_def chunk2size_def)
qed

lemma iteration_agree:
  assumes "(chunk = []) = (chunk' = [])"
    and "slice chunk 4 10 = slice chunk' 4 10"
    and "slice chunk 16 3824 = slice chunk' 16 3824"
  shows "iteration bo w chunk = iteration bo w chunk'"
proof (rule iteration_cong [OF assms(1,2)], rule ballI)
  fix i assume "i \<in> set [0..<34]"
  then have i: "i < 34" by simp
  have e: "take 3808 (drop 16 chunk) = take 3808 (drop 16 chunk')"
    using assms(3) by (simp add: slice_def)
  show "slice (drop 16 chunk) (i * chunk2size) ((i + 1) * chunk2size)
        = slice (drop 16 chunk') (i * chunk2size) ((i + 1) * chunk2size)"
    by (simp only: slice_of_prefix [OF i, of "drop 16 chunk"]
          slice_of_prefix [OF i, of "drop 16 chunk'"] e)
qed


subsection \<open>Records without a mill in data mode\<close>

lemma sub_record_replicate:
  "i < 34 \<Longrightarrow> 3824 \<le> n \<Longrightarrow> sub_record (replicate n x) i = replicate 112 x"
  by (simp add: sub_record_def slice_def min_def)

lemma mode_replicate: "mode (replicate 112 x) = uint x"
  by (simp add: mode_def)

lemma foldl_skip:
  "\<forall>i\<in>set js. mode (sub_record chunk i) \<noteq> 1 \<Longrightarrow> foldl (fold_mill bo chunk) w js = w"
  by (induction js arbitrary: w) (simp_all add: fold_mill_def Let_def)

lemma addresses_ok_skip:
  "\<forall>i\<in>set [0..<34]. mode (sub_record chunk i) \<noteq> 1 \<Longrightarrow> addresses_ok chunk"
  unfolding addresses_ok_def list_all_iff by blast

lemma zeros_skip: "3824 \<le> n \<Longrightarrow> \<forall>i\<in>set [0..<34]. mode (sub_record (replicate n (0 :: byte)) i) \<noteq> 1"
  by (simp add: sub_record_replicate mode_replicate)

lemma zeros_ok: "3824 \<le> n \<Longrightarrow> addresses_ok (replicate n (0 :: byte))"
  by (rule addresses_ok_skip, rule zeros_skip)

lemma zeros_fold: "3824 \<le> n \<Longrightarrow> fold_record bo (replicate n (0 :: byte)) w = w"
  unfolding fold_record_def by (rule foldl_skip, rule zeros_skip)

subsection \<open>The century of a two-digit year\<close>

text \<open>
  C5, as the code has it. The year field is byte 4 of the record, and the label of a
  record of at least 10 bytes is built from \<open>norm_year\<close> of that byte. A field below 90
  is taken to the 2000s and any other to the 1900s: 96 gives 1996, 10 gives 2010, 90
  gives 1990, and 89, being below 90, gives 2089.
\<close>

theorem year_pivot_90:
  "norm_year y = (if y < 90 then 2000 + y else 1900 + y)
   \<and> norm_year 96 = 1996 \<and> norm_year 10 = 2010 \<and> norm_year 89 = 2089 \<and> norm_year 90 = 1990
   \<and> (10 \<le> length chunk \<longrightarrow>
        chunk_time chunk =
          Inr (format_time (norm_year (uint (chunk ! 4))) (uint (chunk ! 5)) (uint (chunk ! 6))
                 (uint (chunk ! 7)) (uint (chunk ! 8))))"
  by (simp add: norm_year_def chunk_time_ok)

theorem year_pivot_90_witness:
  "10 \<le> length (replicate 10 (89 :: byte))
   \<and> chunk_time (replicate 10 (89 :: byte)) = Inr ''2089-89-89 89:89''"
proof -
  have "chunk_time (replicate 10 (89 :: byte)) =
          Inr (format_time (norm_year 89) 89 89 89 89)"
    using year_pivot_90 [of 0 "replicate 10 (89 :: byte)"] by simp
  moreover have "format_time (norm_year 89) 89 89 89 89 = ''2089-89-89 89:89''"
    by code_simp
  ultimately show ?thesis by simp
qed

text \<open>
  C5 as the specification words it: the field 89 does not become the year 1989.
\<close>

theorem year_89_counterexample:
  "norm_year 89 \<noteq> 1989
   \<and> chunk_time (replicate 10 (89 :: byte)) \<noteq> Inr (format_time 1989 89 89 89 89)"
  by code_simp

subsection \<open>Sub-records not in data mode, and records of the wrong length\<close>

lemma mill_body_skip:
  assumes "i < 34" and "3824 \<le> length chunk" and "mode (sub_record chunk i) \<noteq> 1"
  shows "mill_body bo (drop 16 chunk) i w = Inr w"
proof -
  define d where "d = slice (drop 16 chunk) (i * chunk2size) ((i + 1) * chunk2size)"
  have d: "d = sub_record chunk i" by (simp only: d_def sub_record_slice)
  have len: "length d = 112" using sub_record_length [OF assms(1,2)] by (simp only: d)
  note mb = mill_body_def [of bo "drop 16 chunk" i w, folded d_def]
  show ?thesis
    unfolding mb unpack_mill_ok [OF len] using assms(3) by (simp add: d)
qed

lemma for_mills_skip:
  assumes "3824 \<le> length chunk"
    and "\<forall>i\<in>set js. i < 34 \<and> mode (sub_record chunk i) \<noteq> 1"
  shows "for_mills bo (drop 16 chunk) js w = Inr w"
  using assms(2)
proof (induction js)
  case Nil
  then show ?case by simp
next
  case (Cons j js)
  then have "mill_body bo (drop 16 chunk) j w = Inr w"
    using assms(1) by (intro mill_body_skip) simp_all
  then show ?case using Cons by simp
qed

text \<open>
  C6. In a record long enough to hold 34 sub-records, a sub-record whose mode byte is
  not 1 leaves the window as it was: nothing is added to any sum or count, and no
  entry stands in for it. A record with no sub-record in data mode leaves the whole
  window unchanged.
\<close>

theorem invalid_mode_skipped:
  assumes "3824 \<le> length chunk"
  shows "(i < 34 \<and> mode (sub_record chunk i) \<noteq> 1 \<longrightarrow> mill_body bo (drop 16 chunk) i w = Inr w)
       \<and> ((\<forall>i<34. mode (sub_record chunk i) \<noteq> 1) \<longrightarrow>
            for_mills bo (drop 16 chunk) [0..<34] w = Inr w)"
proof (intro conjI impI)
  assume "i < 34 \<and> mode (sub_record chunk i) \<noteq> 1"
  then show "mill_body bo (drop 16 chunk) i w = Inr w"
    using assms by (intro mill_body_skip) simp_all
next
  assume "\<forall>i<34. mode (sub_record chunk i) \<noteq> 1"
  then have "\<forall>i\<in>set [0..<34]. i < 34 \<and> mode (sub_record chunk i) \<noteq> 1" by simp
  with assms show "for_mills bo (drop 16 chunk) [0..<34] w = Inr w"
    by (rule for_mills_skip)
qed

theorem invalid_mode_skipped_witness:
  "3824 \<le> length (replicate 7184 (0 :: byte))
   \<and> (0 :: nat) < 34 \<and> mode (sub_record (replicate 7184 (0 :: byte)) 0) \<noteq> 1
   \<and> list_all (\<lambda>i. mode (sub_record (replicate 7184 (0 :: byte)) i) \<noteq> 1) [0..<34]
   \<and> mill_body Little (drop 16 (replicate 7184 0)) 0 initial = Inr initial
   \<and> for_mills Little (drop 16 (replicate 7184 0)) [0..<34] initial = Inr initial"
proof -
  have m: "\<forall>i<34. mode (sub_record (replicate 7184 (0 :: byte)) i) \<noteq> 1"
    using zeros_skip [of 7184] by simp
  have l: "3824 \<le> length (replicate 7184 (0 :: byte))" by simp
  have m': "list_all (\<lambda>i. mode (sub_record (replicate 7184 (0 :: byte)) i) \<noteq> 1) [0..<34]"
    using m by (simp add: list_all_iff)
  show ?thesis
    using invalid_mode_skipped [OF l, of 0 Little initial] m m' by simp
qed




subsection \<open>Exceptions raised by the content of a full record\<close>

lemma bad35:
  "mode (sub_record (replicate 16 0 @ [35, 1] @ replicate 7166 (0 :: byte)) 0) = 1
   \<and> address (sub_record (replicate 16 0 @ [35, 1] @ replicate 7166 (0 :: byte)) 0) = 35"
  by (simp add: sub_record_def slice_def mode_def address_def)

lemma not_ok_witness:
  "i < 34 \<Longrightarrow> mode (sub_record chunk i) = 1 \<Longrightarrow> 34 < address (sub_record chunk i) \<Longrightarrow>
   \<not> addresses_ok chunk"
  unfolding addresses_ok_def list_all_iff by force

lemma bad35_not_ok: "\<not> addresses_ok (replicate 16 0 @ [35, 1] @ replicate 7166 (0 :: byte))"
  using not_ok_witness [of 0 "replicate 16 0 @ [35, 1] @ replicate 7166 (0 :: byte)"] bad35
  by simp

text \<open>
  C2, as the code has it. In a window as the loop keeps it, a record of 7184 bytes is
  processed without an exception exactly when no sub-record in data mode carries an
  address above 34. Such an address is used as the subscript \<^verbatim>\<open>address-1\<close> of a
  34-element list (lines 185 and 186) and raises \<^verbatim>\<open>IndexError\<close>; no other byte of the
  record can raise.
\<close>

theorem only_addresses_raise:
  assumes "length chunk = 7184" and "second_count w = 0 \<or> ready w"
  shows "(addresses_ok chunk \<longrightarrow> (\<exists>w' r. iteration bo w chunk = Next w' r))
       \<and> (\<not> addresses_ok chunk \<longrightarrow> iteration bo w chunk = Raise IndexError)"
proof -
  have "3824 \<le> length chunk" using assms(1) by simp
  then show ?thesis
    using iteration_full [of chunk w bo] assms(2) by (simp add: Let_def)
qed

theorem only_addresses_raise_witness:
  "length (replicate 7184 (0 :: byte)) = 7184
   \<and> (second_count initial = 0 \<or> ready initial)
   \<and> addresses_ok (replicate 7184 (0 :: byte))
   \<and> (\<exists>w' r. iteration Big initial (replicate 7184 0) = Next w' r)
   \<and> length (replicate 16 0 @ [35, 1] @ replicate 7166 (0 :: byte)) = 7184
   \<and> \<not> addresses_ok (replicate 16 0 @ [35, 1] @ replicate 7166 (0 :: byte))
   \<and> iteration Big initial (replicate 16 0 @ [35, 1] @ replicate 7166 0) = Raise IndexError"
proof -
  have i: "second_count initial = 0 \<or> ready initial" by (simp add: initial_def)
  have a: "length (replicate 7184 (0 :: byte)) = 7184" by simp
  have b: "length (replicate 16 0 @ [35, 1] @ replicate 7166 (0 :: byte)) = 7184" by simp
  have z: "addresses_ok (replicate 7184 (0 :: byte))" by (rule zeros_ok) simp
  show ?thesis
    using only_addresses_raise [OF a i, of Big] only_addresses_raise [OF b i, of Big]
      z bad35_not_ok i
    by simp
qed

text \<open>
  C2 as the specification words it: a record of 7184 bytes whose first sub-record has
  address 35 and mode 1 raises \<^verbatim>\<open>IndexError\<close>.
\<close>

theorem address_35_counterexample:
  "length (replicate 16 0 @ [35, 1] @ replicate 7166 (0 :: byte)) = 7184
   \<and> iteration Little initial (replicate 16 0 @ [35, 1] @ replicate 7166 0) = Raise IndexError"
proof -
  have l: "3824 \<le> length (replicate 16 0 @ [35, 1] @ replicate 7166 (0 :: byte))" by simp
  have i: "second_count initial = 0 \<or> ready initial" by (simp add: initial_def)
  have "iteration Little initial (replicate 16 0 @ [35, 1] @ replicate 7166 0) = Raise IndexError"
    by (simp only: iteration_full [OF l i] bad35_not_ok not_False_eq_True if_True)
  then show ?thesis by simp
qed

subsection \<open>Bytes that are never read\<close>

lemma read_loop_head:
  assumes "length b = chunksize"
  shows "read_loop bo w (b @ post) =
           (case iteration bo w b of
              Break \<Rightarrow> ([], None)
            | Raise e \<Rightarrow> ([], Some e)
            | Next w' r \<Rightarrow>
                (let (rows, res) = read_loop bo w' post
                 in (case r of None \<Rightarrow> rows | Some new_row \<Rightarrow> new_row # rows, res)))"
  by (subst read_loop.simps) (simp add: assms split: step.split)

lemma read_loop_swap_head:
  assumes "length b1 = chunksize" and "length b2 = chunksize"
    and "iteration bo w b1 = iteration bo w b2"
  shows "read_loop bo w (b1 @ post) = read_loop bo w (b2 @ post)"
  by (simp only: read_loop_head [OF assms(1)] read_loop_head [OF assms(2)] assms(3))

lemma read_loop_swap:
  assumes "length b1 = chunksize" and "length b2 = chunksize"
    and "\<And>w. iteration bo w b1 = iteration bo w b2"
    and "length pre = k * chunksize"
  shows "read_loop bo w (pre @ b1 @ post) = read_loop bo w (pre @ b2 @ post)"
  using assms(4)
proof (induction k arbitrary: pre w)
  case 0
  then show ?case using read_loop_swap_head [OF assms(1,2) assms(3)] by simp
next
  case (Suc k)
  define p1 where "p1 = take chunksize pre"
  define p2 where "p2 = drop chunksize pre"
  have pre: "pre = p1 @ p2" by (simp add: p1_def p2_def)
  have l1: "length p1 = chunksize" using Suc.prems by (simp add: p1_def)
  have l2: "length p2 = k * chunksize" using Suc.prems by (simp add: p2_def)
  have "read_loop bo v (p2 @ b1 @ post) = read_loop bo v (p2 @ b2 @ post)" for v
    using l2 by (rule Suc.IH)
  then show ?case
    using read_loop_head [OF l1, of bo w "p2 @ b1 @ post"]
      read_loop_head [OF l1, of bo w "p2 @ b2 @ post"]
    by (simp add: pre split: step.split)
qed

text \<open>
  C10. Two records of 7184 bytes that agree on bytes 4 to 9 and on bytes 16 to 3823
  give the same iteration from every window: the same exception, or the same new
  window and the same row. Exchanging one for the other at a record boundary of a file
  leaves everything \<^verbatim>\<open>translate_KSC\<close> writes unchanged. Bytes 0 to 3, 10 to 15 and 3824
  to 7183 are never read.
\<close>

theorem unread_bytes:
  assumes "length b1 = 7184" and "length b2 = 7184"
    and "slice b1 4 10 = slice b2 4 10" and "slice b1 16 3824 = slice b2 16 3824"
  shows "iteration bo w b1 = iteration bo w b2
       \<and> (length pre = k * 7184 \<longrightarrow>
            translate_KSC bo (pre @ b1 @ post) = translate_KSC bo (pre @ b2 @ post))"
proof -
  have ne: "(b1 = []) = (b2 = [])" using assms(1,2) by auto
  have it: "iteration bo v b1 = iteration bo v b2" for v
    using ne assms(3,4) by (rule iteration_agree)
  have "length pre = k * 7184 \<Longrightarrow>
        read_loop bo initial (pre @ b1 @ post) = read_loop bo initial (pre @ b2 @ post)"
    using read_loop_swap [of b1 b2 bo pre k initial post] assms(1,2) it
    by (simp add: chunksize_def)
  then show ?thesis using it by (simp add: translate_KSC_def)
qed

theorem unread_bytes_witness:
  "length (replicate 7184 (0 :: byte)) = 7184
   \<and> length (replicate 4 255 @ replicate 6 0 @ replicate 6 255 @ replicate 3808 0
              @ replicate 3360 (255 :: byte)) = 7184
   \<and> slice (replicate 7184 (0 :: byte)) 4 10
       = slice (replicate 4 255 @ replicate 6 0 @ replicate 6 255 @ replicate 3808 0
                @ replicate 3360 (255 :: byte)) 4 10
   \<and> slice (replicate 7184 (0 :: byte)) 16 3824
       = slice (replicate 4 255 @ replicate 6 0 @ replicate 6 255 @ replicate 3808 0
                @ replicate 3360 (255 :: byte)) 16 3824
   \<and> length (replicate 7184 (1 :: byte)) = 1 * 7184
   \<and> iteration Little initial (replicate 7184 0)
       = iteration Little initial (replicate 4 255 @ replicate 6 0 @ replicate 6 255
           @ replicate 3808 0 @ replicate 3360 255)
   \<and> translate_KSC Little (replicate 7184 1 @ replicate 7184 0 @ [])
       = translate_KSC Little (replicate 7184 1 @ (replicate 4 255 @ replicate 6 0
           @ replicate 6 255 @ replicate 3808 0 @ replicate 3360 255) @ [])"
proof -
  let ?b2 = "replicate 4 255 @ replicate 6 0 @ replicate 6 255 @ replicate 3808 0
             @ replicate 3360 (255 :: byte)"
  have a: "length (replicate 7184 (0 :: byte)) = 7184" by simp
  have b: "length ?b2 = 7184" by simp
  have c: "slice (replicate 7184 (0 :: byte)) 4 10 = slice ?b2 4 10"
    by (simp add: slice_def)
  have d: "slice (replicate 7184 (0 :: byte)) 16 3824 = slice ?b2 16 3824"
    by (simp add: slice_def)
  have e: "length (replicate 7184 (1 :: byte)) = 1 * 7184" by simp
  show ?thesis
    using unread_bytes [OF a b c d, of Little initial "replicate 7184 1" 1 "[]"] a b c d e
    by simp
qed

subsection \<open>Closing a window\<close>

lemma start_minute_zero:
  "second_count w = 0 \<Longrightarrow>
   start_minute w = w\<lparr>mill_counts := replicate 34 (Finite 0), mill_values := replicate 34 (Finite 0)\<rparr>"
  by (simp add: start_minute_def)

lemma iteration_start_minute:
  "start_minute w = start_minute v \<Longrightarrow> iteration bo w c = iteration bo v c"
  by (simp add: iteration_def)

lemma iteration_fresh:
  assumes "second_count w = 0"
  shows "iteration bo w c = iteration bo initial c"
proof (rule iteration_start_minute)
  show "start_minute w = start_minute initial"
    using assms by (cases w) (simp add: start_minute_def initial_def)
qed

lemma iteration_Next_ok:
  assumes "iteration bo w chunk = Next w' r" and "second_count w = 0 \<or> ready w"
  shows "addresses_ok chunk"
proof (rule ccontr)
  assume "\<not> addresses_ok chunk"
  then show False
    using iteration_full [OF iteration_Next_length [OF assms(1)] assms(2), of bo] assms(1)
    by simp
qed

text \<open>
  C3. Take an iteration that ends normally, from a window as the loop keeps it. If it
  brings the counter to 60, it writes one row: the label of the record just read and,
  for each of the 34 positions, the sum divided by the count where the count is above
  zero and not-a-number otherwise, taken from the accumulators as this record left
  them. The counter is then 0, and the next iteration starts from 34 zero sums and
  counts (line 159 replaces both lists before anything reads them), so it behaves as
  the first iteration of a call does. If the counter does not reach 60, no row is
  written and the counter is one more than before.
\<close>

theorem window_close:
  assumes "iteration bo w chunk = Next w' r" and "second_count w = 0 \<or> ready w"
  shows "(second_count w + 1 = 60 \<longrightarrow>
            r = Some (label chunk,
                      map (\<lambda>i. average (mill_values w' ! i) (mill_counts w' ! i)) [0..<34])
            \<and> second_count w' = 0
            \<and> start_minute w' =
                w'\<lparr>mill_counts := replicate 34 (Finite 0), mill_values := replicate 34 (Finite 0)\<rparr>
            \<and> (\<forall>c. iteration bo w' c = iteration bo initial c))
       \<and> (second_count w + 1 \<noteq> 60 \<longrightarrow> r = None \<and> second_count w' = second_count w + 1)"
proof -
  have l: "3824 \<le> length chunk" using assms(1) by (rule iteration_Next_length)
  have ok: "addresses_ok chunk" using assms by (rule iteration_Next_ok)
  note full = iteration_full [OF l assms(2), of bo]
  show ?thesis
  proof (cases "second_count w + 1 = 60")
    case True
    then have "Next w' r =
        Next (fold_record bo chunk (start_minute w)\<lparr>second_count := 0\<rparr>)
          (Some (label chunk,
                 map (\<lambda>i. average (mill_values (fold_record bo chunk (start_minute w)) ! i)
                            (mill_counts (fold_record bo chunk (start_minute w)) ! i)) [0..<34]))"
      using full ok assms(1) by (simp add: Let_def del: upt_Suc)
    then have w': "w' = fold_record bo chunk (start_minute w)\<lparr>second_count := 0\<rparr>"
      and r: "r = Some (label chunk,
                 map (\<lambda>i. average (mill_values (fold_record bo chunk (start_minute w)) ! i)
                            (mill_counts (fold_record bo chunk (start_minute w)) ! i)) [0..<34])"
      by simp_all
    have z: "second_count w' = 0" by (simp add: w')
    show ?thesis
      using True z start_minute_zero [OF z] iteration_fresh [OF z, of bo]
      by (simp add: r w' del: upt_Suc)
  next
    case False
    then have "Next w' r =
        Next (fold_record bo chunk (start_minute w)\<lparr>second_count := second_count w + 1\<rparr>) None"
      using full ok assms(1) by (simp add: Let_def del: upt_Suc)
    then show ?thesis using False by simp
  qed
qed

lemma label_zeros: "10 \<le> n \<Longrightarrow> label (replicate n (0 :: byte)) = ''2000-00-00 00:00''"
proof -
  have "format_time (norm_year 0) 0 0 0 0 = ''2000-00-00 00:00''" by code_simp
  then show "10 \<le> n \<Longrightarrow> label (replicate n (0 :: byte)) = ''2000-00-00 00:00''"
    by (simp add: label_def)
qed

lemma averages_example:
  "map (\<lambda>i. average ((Finite 7 # replicate 33 (Finite 0)) ! i)
               ((Finite 2 # replicate 33 (Finite 0)) ! i)) [0..<34]
   = Finite (7 / 2) # replicate 33 NaN"
  by code_simp

theorem window_close_witness:
  "iteration Little
      \<lparr>second_count = 59, mill_counts = Finite 2 # replicate 33 (Finite 0),
        mill_values = Finite 7 # replicate 33 (Finite 0)\<rparr> (replicate 7184 0)
     = Next \<lparr>second_count = 0, mill_counts = Finite 2 # replicate 33 (Finite 0),
              mill_values = Finite 7 # replicate 33 (Finite 0)\<rparr>
         (Some (''2000-00-00 00:00'', Finite (7 / 2) # replicate 33 NaN))
   \<and> start_minute \<lparr>second_count = 0, mill_counts = Finite 2 # replicate 33 (Finite 0),
                     mill_values = Finite 7 # replicate 33 (Finite 0)\<rparr>
       = \<lparr>second_count = 0, mill_counts = replicate 34 (Finite 0),
          mill_values = replicate 34 (Finite 0)\<rparr>
   \<and> iteration Little initial (replicate 7184 0)
       = Next \<lparr>second_count = 1, mill_counts = replicate 34 (Finite 0),
                mill_values = replicate 34 (Finite 0)\<rparr> None"
proof -
  let ?w = "\<lparr>second_count = 59, mill_counts = Finite 2 # replicate 33 (Finite 0),
             mill_values = Finite 7 # replicate 33 (Finite 0)\<rparr>"
  let ?z = "replicate 7184 (0 :: byte)"
  have l: "3824 \<le> length ?z" by simp
  have rw: "second_count ?w = 0 \<or> ready ?w" by (simp add: ready_def)
  have ri: "second_count initial = 0 \<or> ready initial" by (simp add: initial_def)
  have n1: "iteration Little ?w ?z =
              Next (?w\<lparr>second_count := 0\<rparr>)
                (Some (label ?z,
                       map (\<lambda>i. average (mill_values ?w ! i) (mill_counts ?w ! i)) [0..<34]))"
    using iteration_full [OF l rw, of Little]
    by (simp add: zeros_ok zeros_fold start_minute_def Let_def del: upt_Suc)
  have n2: "iteration Little initial ?z =
              Next \<lparr>second_count = 1, mill_counts = replicate 34 (Finite 0),
                     mill_values = replicate 34 (Finite 0)\<rparr> None"
    using iteration_full [OF l ri, of Little]
    by (simp add: zeros_ok zeros_fold start_minute_def initial_def Let_def del: upt_Suc)
  have c1: "second_count ?w + 1 = 60" by simp
  have c2: "second_count initial + 1 \<noteq> 60" by (simp add: initial_def)
  show ?thesis
    using window_close [OF n1 rw] window_close [OF n2 ri] c1 c2 n1 n2
    by (simp add: label_zeros averages_example del: upt_Suc)
qed

subsection \<open>The loop over the records of a file\<close>





lemma label_take: "9 \<le> n \<Longrightarrow> label (take n c) = label c"
  by (simp add: label_def)




subsection \<open>The shape of a label\<close>










subsection \<open>Rows of a whole file\<close>








end
